theory Spec2Isabelle
  imports Main "HOL-Library.Monad_Syntax"
begin

section \<open>Data model\<close>

text \<open>
  An element of the parsed tree, as \<^verbatim>\<open>xml.etree.ElementTree.Element\<close> presents it to
  the converter: \<^verbatim>\<open>element.tag\<close>, \<^verbatim>\<open>element.attrib\<close> (a dict from attribute name to
  attribute value, kept in insertion order), \<^verbatim>\<open>element.text\<close> (a string or \<^verbatim>\<open>None\<close>) and
  the child elements that iterating over the element yields. Characters are \<^typ>\<open>char\<close>,
  read as code points below 256.
\<close>

datatype element =
  Element (tag: string) (attrib: "(string \<times> string) list") (text_opt: "string option")
    (children: "element list")

text \<open>
  What \<^verbatim>\<open>xml_to_dict_recursive\<close> builds: a \<^verbatim>\<open>str\<close>, a \<^verbatim>\<open>dict\<close> with string keys
  (insertion ordered) or a \<^verbatim>\<open>list\<close>.
\<close>

datatype svalue = VStr string | VDict "(string \<times> svalue) list" | VList "svalue list"

type_synonym dict = "(string \<times> svalue) list"

section \<open>Dictionaries, lists and strings of the source language\<close>

text \<open>\<^verbatim>\<open>k in d\<close>.\<close>

definition dict_contains :: "(string \<times> 'v) list \<Rightarrow> string \<Rightarrow> bool" where
  "dict_contains d k = (k \<in> set (map fst d))"

text \<open>\<^verbatim>\<open>d[k]\<close> as an expression; \<open>None\<close> is the \<^verbatim>\<open>KeyError\<close>.\<close>

definition dict_getitem :: "(string \<times> 'v) list \<Rightarrow> string \<Rightarrow> 'v option" where
  "dict_getitem d k = map_of d k"

text \<open>
  \<^verbatim>\<open>d[k] = v\<close>: a key already present keeps its position, a new key goes to the end.
\<close>

fun dict_setitem :: "(string \<times> 'v) list \<Rightarrow> string \<Rightarrow> 'v \<Rightarrow> (string \<times> 'v) list" where
  "dict_setitem [] k v = [(k, v)]"
| "dict_setitem ((k', v') # d) k v =
     (if k' = k then (k, v) # d else (k', v') # dict_setitem d k v)"

text \<open>\<^verbatim>\<open>isinstance(v, list)\<close>.\<close>

fun isinstance_list :: "svalue \<Rightarrow> bool" where
  "isinstance_list (VList xs) = True"
| "isinstance_list (VStr s) = False"
| "isinstance_list (VDict d) = False"

text \<open>
  \<^verbatim>\<open>v.append(x)\<close>: only a list has the method; on a \<^verbatim>\<open>str\<close> or a \<^verbatim>\<open>dict\<close> the call
  raises \<^verbatim>\<open>AttributeError\<close>, which is \<open>None\<close> here.
\<close>

fun list_append :: "svalue \<Rightarrow> svalue \<Rightarrow> svalue option" where
  "list_append (VList xs) x = Some (VList (xs @ [x]))"
| "list_append (VStr s) x = None"
| "list_append (VDict d) x = None"

text \<open>
  \<^verbatim>\<open>str.isspace\<close> on one character, for the code points below 256: the ASCII controls
  TAB, LF, VT, FF, CR, FS, GS, RS, US, the space, NEL and the no-break space.
\<close>

definition isspace :: "char \<Rightarrow> bool" where
  "isspace c = (of_char c \<in> set [9, 10, 11, 12, 13, 28, 29, 30, 31, 32, 133, 160 :: nat])"

text \<open>\<^verbatim>\<open>s.strip()\<close>: leading and trailing whitespace removed.\<close>

definition strip :: "string \<Rightarrow> string" where
  "strip s = rev (dropWhile isspace (rev (dropWhile isspace s)))"

text \<open>The attribute dict as a value: its values are strings.\<close>

definition attrib_value :: "(string \<times> string) list \<Rightarrow> svalue" where
  "attrib_value a = VDict (map (\<lambda>(k, v). (k, VStr v)) a)"

section \<open>The converter\<close>

text \<open>
  The body of the \<^verbatim>\<open>for child in element\<close> loop once \<^verbatim>\<open>child_data\<close> is known:
  \<^verbatim>\<open>
  if child.tag in result:
      if not isinstance(result[child.tag], list):
          result[child.tag] = [result[child.tag]]
      result[child.tag].append(child_data)
  else:
      result[child.tag] = child_data
  \<close>
  Appending mutates the list stored under the key; the updated list is stored back under the
  same key, which keeps the key's position.
\<close>

definition add_child :: "dict \<Rightarrow> string \<Rightarrow> svalue \<Rightarrow> dict option" where
  "add_child result k child_data =
     (if dict_contains result k then
        do {
          v \<leftarrow> dict_getitem result k;
          result1 \<leftarrow> (if \<not> isinstance_list v
                      then Some (dict_setitem result k (VList [v])) else Some result);
          l \<leftarrow> dict_getitem result1 k;
          l' \<leftarrow> list_append l child_data;
          Some (dict_setitem result1 k l')
        }
      else Some (dict_setitem result k child_data))"

text \<open>
  \<^verbatim>\<open>xml_to_dict_recursive(element)\<close>, with the loop over the children as the second
  function of the pair. \<open>None\<close> stands for an exception leaving the call.
\<close>

fun xml_to_dict_recursive :: "element \<Rightarrow> svalue option"
  and add_children :: "dict \<Rightarrow> element list \<Rightarrow> dict option" where
  "xml_to_dict_recursive (Element tg at tx cs) =
     (let result0 = [];
          result1 = (if at \<noteq> [] then dict_setitem result0 ''@attributes'' (attrib_value at)
                     else result0)
      in case tx of
           None \<Rightarrow> map_option VDict (add_children result1 cs)
         | Some t \<Rightarrow>
             if t \<noteq> [] \<and> strip t \<noteq> [] then
               (if length cs = 0 then Some (VStr (strip t))
                else map_option VDict
                       (add_children (dict_setitem result1 ''text'' (VStr (strip t))) cs))
             else map_option VDict (add_children result1 cs))"
| "add_children result [] = Some result"
| "add_children result (child # rest) =
     do {
       child_data \<leftarrow> xml_to_dict_recursive child;
       result' \<leftarrow> add_child result (tag child) child_data;
       add_children result' rest
     }"

text \<open>
  The dict built in \<^verbatim>\<open>xml_to_dict\<close> from the parsed root:
  \<^verbatim>\<open>xml_dict = {root.tag: xml_to_dict_recursive(root)}\<close>.
\<close>

definition xml_dict :: "element \<Rightarrow> svalue option" where
  "xml_dict root =
     do { v \<leftarrow> xml_to_dict_recursive root; Some (VDict (dict_setitem [] (tag root) v)) }"

section \<open>Tree depth and the call stack\<close>

text \<open>The depth of an element tree: the number of elements on its longest branch.\<close>

fun height :: "element \<Rightarrow> nat" where
  "height (Element tg at tx cs) = Suc (foldr max (map height cs) 0)"

text \<open>
  The converter again, run on a call stack with room for \<open>limit\<close> nested activations of
  \<^verbatim>\<open>xml_to_dict_recursive\<close>: an activation that does not fit raises
  \<^verbatim>\<open>RecursionError\<close>, which is \<open>None\<close> and leaves every enclosing activation. The
  activation of a child runs one level deeper than the loop that calls it.
\<close>

fun xml_to_dict_recursive_depth :: "nat \<Rightarrow> element \<Rightarrow> svalue option"
  and add_children_depth :: "nat \<Rightarrow> dict \<Rightarrow> element list \<Rightarrow> dict option" where
  "xml_to_dict_recursive_depth 0 element = None"
| "xml_to_dict_recursive_depth (Suc limit) (Element tg at tx cs) =
     (let result0 = [];
          result1 = (if at \<noteq> [] then dict_setitem result0 ''@attributes'' (attrib_value at)
                     else result0)
      in case tx of
           None \<Rightarrow> map_option VDict (add_children_depth limit result1 cs)
         | Some t \<Rightarrow>
             if t \<noteq> [] \<and> strip t \<noteq> [] then
               (if length cs = 0 then Some (VStr (strip t))
                else map_option VDict
                       (add_children_depth limit
                          (dict_setitem result1 ''text'' (VStr (strip t))) cs))
             else map_option VDict (add_children_depth limit result1 cs))"
| "add_children_depth limit result [] = Some result"
| "add_children_depth limit result (child # rest) =
     do {
       child_data \<leftarrow> xml_to_dict_recursive_depth limit child;
       result' \<leftarrow> add_child result (tag child) child_data;
       add_children_depth limit result' rest
     }"

section \<open>The shape of a converted value\<close>

text \<open>
  A value in which a list occurs only as a value stored in a dict: the value itself is
  not a list, no member of a list is a list, and the same holds inside every dict value
  and list member.
\<close>

fun well_shaped :: "svalue \<Rightarrow> bool" where
  "well_shaped (VStr s) = True"
| "well_shaped (VDict d) =
     list_all
       (\<lambda>(k, v). case v of VList xs \<Rightarrow> list_all well_shaped xs | _ \<Rightarrow> well_shaped v) d"
| "well_shaped (VList xs) = False"

text \<open>What a well-shaped dict may hold under a key: a well-shaped value, or a list of them.\<close>

definition well_shaped_slot :: "svalue \<Rightarrow> bool" where
  "well_shaped_slot v = (case v of VList xs \<Rightarrow> list_all well_shaped xs | _ \<Rightarrow> well_shaped v)"

section \<open>The converter on a heap of mutable objects\<close>

text \<open>
  The same code once more, with the objects it shares and mutates made explicit. A Python
  value is an immutable string or a reference to a mutable object, a dict or a list, that
  lives at an address of the heap; a new object takes the next free address.
\<close>

type_synonym addr = nat

datatype pyref = RStr string | RObj addr

datatype pyobj = ODict "(string \<times> pyref) list" | OList "pyref list"

type_synonym heap = "pyobj list"



definition load :: "heap \<Rightarrow> addr \<Rightarrow> pyobj option" where
  "load h a = (if a < length h then Some (h ! a) else None)"

definition load_dict :: "heap \<Rightarrow> pyref \<Rightarrow> (string \<times> pyref) list option" where
  "load_dict h r =
     (case r of
        RObj a \<Rightarrow> (case load h a of Some (ODict d) \<Rightarrow> Some d | _ \<Rightarrow> None)
      | RStr s \<Rightarrow> None)"


definition heap_isinstance_list :: "heap \<Rightarrow> pyref \<Rightarrow> bool" where
  "heap_isinstance_list h r =
     (case r of
        RObj a \<Rightarrow> (case load h a of Some (OList xs) \<Rightarrow> True | _ \<Rightarrow> False)
      | RStr s \<Rightarrow> False)"




text \<open>
  \<open>represents h F r v\<close>: in the heap \<open>h\<close> the reference \<open>r\<close> stands for the value \<open>v\<close>,
  and every object read on the way has its address in \<open>F\<close>.
\<close>

fun represents :: "heap \<Rightarrow> addr set \<Rightarrow> pyref \<Rightarrow> svalue \<Rightarrow> bool" where
  "represents h F r (VStr s) = (r = RStr s)"
| "represents h F r (VDict m) =
     (case load_dict h r of
        Some d \<Rightarrow> (case r of RObj a \<Rightarrow> a \<in> F | _ \<Rightarrow> False) \<and> map fst d = map fst m \<and>
                  list_all2 (represents h F) (map snd d) (map snd m)
      | None \<Rightarrow> False)"
| "represents h F r (VList vs) =
     (case r of
        RObj a \<Rightarrow> a \<in> F \<and>
          (case load h a of Some (OList rs) \<Rightarrow> list_all2 (represents h F) rs vs | _ \<Rightarrow> False)
      | RStr s \<Rightarrow> False)"




text \<open>
  The invariant of the loop, between the dict at the address \<open>res\<close> and the functional
  dict \<open>m\<close>: same keys in the same order; a list of \<open>m\<close> is a list object above \<open>res\<close> and
  outside \<open>G\<close> whose members are represented inside \<open>G\<close>; any other value is represented
  inside \<open>G\<close>; and no list object is referred to under two keys.
\<close>

definition slot_rep :: "heap \<Rightarrow> addr set \<Rightarrow> addr \<Rightarrow> pyref \<Rightarrow> svalue \<Rightarrow> bool" where
  "slot_rep h G res r v =
     (case v of
        VList vs \<Rightarrow>
          (case r of
             RObj a \<Rightarrow> a \<notin> G \<and> res < a \<and>
               (case load h a of Some (OList rs) \<Rightarrow> list_all2 (represents h G) rs vs | _ \<Rightarrow> False)
           | RStr s \<Rightarrow> False)
      | _ \<Rightarrow> represents h G r v)"

definition dict_inv ::
  "heap \<Rightarrow> addr set \<Rightarrow> addr \<Rightarrow> (string \<times> pyref) list \<Rightarrow> dict \<Rightarrow> bool" where
  "dict_inv h G res d m \<longleftrightarrow>
     map fst d = map fst m \<and> distinct (map fst d) \<and>
     (\<forall>k. rel_option (slot_rep h G res) (map_of d k) (map_of m k)) \<and>
     (\<forall>k1 k2 a. map_of d k1 = Some (RObj a) \<and> map_of d k2 = Some (RObj a) \<and>
        heap_isinstance_list h (RObj a) \<longrightarrow> k1 = k2)"


section \<open>Dictionaries and strings\<close>

lemma map_of_dict_setitem: "map_of (dict_setitem d k v) = (map_of d)(k \<mapsto> v)"
  by (induction d k v rule: dict_setitem.induct) auto

lemma dict_contains_iff: "dict_contains d k \<longleftrightarrow> map_of d k \<noteq> None"
  by (simp add: dict_contains_def map_of_eq_None_iff)

lemma strip_empty_iff: "strip t = [] \<longleftrightarrow> (\<forall>c \<in> set t. isspace c)"
proof
  assume "strip t = []"
  then have rest: "\<forall>c \<in> set (dropWhile isspace t). isspace c"
    by (simp add: strip_def dropWhile_eq_Nil_conv)
  have "set t = set (takeWhile isspace t) \<union> set (dropWhile isspace t)"
    by (metis set_append takeWhile_dropWhile_id)
  with rest show "\<forall>c \<in> set t. isspace c"
    by (auto dest: set_takeWhileD)
next
  assume "\<forall>c \<in> set t. isspace c"
  then have "dropWhile isspace t = []"
    by (simp add: dropWhile_eq_Nil_conv)
  then show "strip t = []"
    unfolding strip_def by (simp del: dropWhile_eq_Nil_conv)
qed

section \<open>One step of the loop over the children\<close>

text \<open>
  The three cases of the loop body: the key is new, the key holds a list, the key holds
  something that is not a list. In none of them does the \<^verbatim>\<open>append\<close> fail.
\<close>

lemma add_child_absent:
  "map_of result k = None \<Longrightarrow> add_child result k x = Some (dict_setitem result k x)"
  by (simp add: add_child_def dict_contains_iff)

lemma add_child_list:
  "map_of result k = Some (VList xs) \<Longrightarrow>
   add_child result k x = Some (dict_setitem result k (VList (xs @ [x])))"
  by (simp add: add_child_def dict_contains_iff dict_getitem_def)

lemma add_child_scalar:
  "map_of result k = Some v \<Longrightarrow> \<not> isinstance_list v \<Longrightarrow>
   add_child result k x =
     Some (dict_setitem (dict_setitem result k (VList [v])) k (VList [v, x]))"
  by (simp add: add_child_def dict_contains_iff dict_getitem_def map_of_dict_setitem)

lemma add_child_total: "\<exists>r. add_child result k x = Some r"
proof (cases "map_of result k")
  case None
  then show ?thesis by (simp add: add_child_absent)
next
  case (Some v)
  then show ?thesis
    by (cases v) (simp_all add: add_child_list add_child_scalar)
qed

lemma add_child_other:
  assumes "add_child result k x = Some r" and "k \<noteq> n"
  shows "map_of r n = map_of result n"
proof (cases "map_of result k")
  case None
  with assms show ?thesis by (auto simp: add_child_absent map_of_dict_setitem)
next
  case (Some v)
  with assms show ?thesis
    by (cases v) (auto simp: add_child_list add_child_scalar map_of_dict_setitem)
qed

lemma add_child_same_absent:
  "map_of result k = None \<Longrightarrow> add_child result k x = Some r \<Longrightarrow> map_of r k = Some x"
  by (auto simp: add_child_absent map_of_dict_setitem)

lemma add_child_same_list:
  "map_of result k = Some (VList xs) \<Longrightarrow> add_child result k x = Some r \<Longrightarrow>
   map_of r k = Some (VList (xs @ [x]))"
  by (auto simp: add_child_list map_of_dict_setitem)

lemma add_child_same_scalar:
  "map_of result k = Some v \<Longrightarrow> \<not> isinstance_list v \<Longrightarrow>
   add_child result k x = Some r \<Longrightarrow> map_of r k = Some (VList [v, x])"
  by (auto simp: add_child_scalar map_of_dict_setitem)

section \<open>The converter returns, and never a list\<close>

lemma xml_to_dict_recursive_not_list:
  "xml_to_dict_recursive e = Some v \<Longrightarrow> \<not> isinstance_list v"
  by (cases e) (auto simp: Let_def split: option.splits if_splits)

lemma add_children_Cons_Some:
  "add_children result (c # rest) = Some r \<longleftrightarrow>
   (\<exists>cd r1. xml_to_dict_recursive c = Some cd \<and> add_child result (tag c) cd = Some r1 \<and>
      add_children r1 rest = Some r)"
  by (auto simp: bind_eq_Some_conv)

lemma converter_returns:
  shows xml_to_dict_recursive_returns: "\<exists>v. xml_to_dict_recursive e = Some v"
    and add_children_returns: "\<exists>r. add_children result cs = Some r"
proof (induction e and result cs rule: xml_to_dict_recursive_add_children.induct)
  case (1 tg at tx cs)
  then show ?case by (auto simp: Let_def split: option.splits)
next
  case (2 result)
  then show ?case by simp
next
  case (3 result child rest)
  from "3.IH"(1) obtain cd where cd: "xml_to_dict_recursive child = Some cd"
    by blast
  obtain r1 where r1: "add_child result (tag child) cd = Some r1"
    using add_child_total by blast
  from "3.IH"(2) [OF cd r1] obtain r where "add_children r1 rest = Some r"
    by blast
  with cd r1 show ?case
    unfolding add_children_Cons_Some by blast
qed

section \<open>The loop over the children, seen from one key\<close>

text \<open>
  What the loop leaves under a key \<open>n\<close>, from what the key held before the loop and the
  converted children tagged \<open>n\<close>, in document order: a list grows by them; a value that
  is not a list becomes the head of a list as soon as one child is tagged \<open>n\<close>; a new key
  takes the single child's value, or the list of all of them.
\<close>

lemma add_children_list_slot:
  "map_of result n = Some (VList xs) \<Longrightarrow> add_children result cs = Some r \<Longrightarrow>
   map xml_to_dict_recursive [c \<leftarrow> cs. tag c = n] = map Some vs \<Longrightarrow>
   map_of r n = Some (VList (xs @ vs))"
proof (induction cs arbitrary: result xs vs)
  case Nil
  then show ?case by simp
next
  case (Cons c rest)
  from Cons.prems(2) obtain cd r1 where
    cd: "xml_to_dict_recursive c = Some cd" and
    r1: "add_child result (tag c) cd = Some r1" and
    r: "add_children r1 rest = Some r"
    unfolding add_children_Cons_Some by blast
  show ?case
  proof (cases "tag c = n")
    case True
    with Cons.prems(3) cd obtain vs' where vs: "vs = cd # vs'"
      and rest: "map xml_to_dict_recursive [c \<leftarrow> rest. tag c = n] = map Some vs'"
      by (cases vs) auto
    from True Cons.prems(1) r1 have "map_of r1 n = Some (VList (xs @ [cd]))"
      by (auto dest: add_child_same_list)
    from Cons.IH [OF this r rest] show ?thesis by (simp add: vs)
  next
    case False
    with Cons.prems(3)
    have rest: "map xml_to_dict_recursive [c \<leftarrow> rest. tag c = n] = map Some vs"
      by simp
    from False r1 Cons.prems(1) have "map_of r1 n = Some (VList xs)"
      by (simp add: add_child_other)
    from Cons.IH [OF this r rest] show ?thesis .
  qed
qed

lemma add_children_scalar_slot:
  "map_of result n = Some u \<Longrightarrow> \<not> isinstance_list u \<Longrightarrow>
   add_children result cs = Some r \<Longrightarrow>
   map xml_to_dict_recursive [c \<leftarrow> cs. tag c = n] = map Some vs \<Longrightarrow>
   map_of r n = (if vs = [] then Some u else Some (VList (u # vs)))"
proof (induction cs arbitrary: result)
  case Nil
  then show ?case by auto
next
  case (Cons c rest)
  from Cons.prems(3) obtain cd r1 where
    cd: "xml_to_dict_recursive c = Some cd" and
    r1: "add_child result (tag c) cd = Some r1" and
    r: "add_children r1 rest = Some r"
    unfolding add_children_Cons_Some by blast
  show ?case
  proof (cases "tag c = n")
    case True
    with Cons.prems(4) cd obtain vs' where vs: "vs = cd # vs'"
      and rest: "map xml_to_dict_recursive [c \<leftarrow> rest. tag c = n] = map Some vs'"
      by (cases vs) auto
    from True Cons.prems(1,2) r1 have "map_of r1 n = Some (VList ([u] @ [cd]))"
      by (auto dest: add_child_same_scalar)
    from add_children_list_slot [OF this r rest] show ?thesis by (simp add: vs)
  next
    case False
    with Cons.prems(4)
    have rest: "map xml_to_dict_recursive [c \<leftarrow> rest. tag c = n] = map Some vs"
      by simp
    from False r1 Cons.prems(1) have "map_of r1 n = Some u"
      by (simp add: add_child_other)
    from Cons.IH [OF this Cons.prems(2) r rest] show ?thesis .
  qed
qed

lemma add_children_empty_slot:
  "map_of result n = None \<Longrightarrow> add_children result cs = Some r \<Longrightarrow>
   map xml_to_dict_recursive [c \<leftarrow> cs. tag c = n] = map Some vs \<Longrightarrow>
   map_of r n = (case vs of [] \<Rightarrow> None | [v] \<Rightarrow> Some v | v # w # ws \<Rightarrow> Some (VList vs))"
proof (induction cs arbitrary: result)
  case Nil
  then show ?case by auto
next
  case (Cons c rest)
  from Cons.prems(2) obtain cd r1 where
    cd: "xml_to_dict_recursive c = Some cd" and
    r1: "add_child result (tag c) cd = Some r1" and
    r: "add_children r1 rest = Some r"
    unfolding add_children_Cons_Some by blast
  show ?case
  proof (cases "tag c = n")
    case True
    with Cons.prems(3) cd obtain vs' where vs: "vs = cd # vs'"
      and rest: "map xml_to_dict_recursive [c \<leftarrow> rest. tag c = n] = map Some vs'"
      by (cases vs) auto
    from True Cons.prems(1) r1 have "map_of r1 n = Some cd"
      by (auto dest: add_child_same_absent)
    from add_children_scalar_slot [OF this xml_to_dict_recursive_not_list [OF cd] r rest]
    show ?thesis
      by (simp add: vs split: list.splits)
  next
    case False
    with Cons.prems(3)
    have rest: "map xml_to_dict_recursive [c \<leftarrow> rest. tag c = n] = map Some vs"
      by simp
    from False r1 Cons.prems(1) have "map_of r1 n = None"
      by (simp add: add_child_other)
    from Cons.IH [OF this r rest] show ?thesis .
  qed
qed

text \<open>The converted children exist, whichever children are selected.\<close>

lemma converted_children: "\<exists>vs. map xml_to_dict_recursive ks = map Some vs"
proof (induction ks)
  case Nil
  then show ?case by simp
next
  case (Cons k ks)
  then obtain vs where "map xml_to_dict_recursive ks = map Some vs"
    by blast
  moreover obtain v where "xml_to_dict_recursive k = Some v"
    using xml_to_dict_recursive_returns by blast
  ultimately have "map xml_to_dict_recursive (k # ks) = map Some (v # vs)"
    by simp
  then show ?case by blast
qed

section \<open>Elements with children\<close>

lemma dict_setitem_twice: "dict_setitem (dict_setitem d k v) k w = dict_setitem d k w"
  by (induction d k v rule: dict_setitem.induct) auto

lemma add_child_scalar_list:
  "map_of result k = Some v \<Longrightarrow> \<not> isinstance_list v \<Longrightarrow>
   add_child result k x = Some (dict_setitem result k (VList [v, x]))"
  by (simp add: add_child_scalar dict_setitem_twice)

lemma strip_Nil: "strip [] = []"
  by (simp add: strip_def)

lemma attrib_value_not_list: "\<not> isinstance_list (attrib_value a)"
  by (simp add: attrib_value_def)

text \<open>
  The dict the loop starts from, when the element has a child: it holds \<^verbatim>\<open>@attributes\<close>
  and \<^verbatim>\<open>text\<close> at most.
\<close>

lemma element_with_children:
  assumes "cs \<noteq> []"
  shows "\<exists>init.
    xml_to_dict_recursive (Element tg at tx cs) = map_option VDict (add_children init cs) \<and>
    map_of init ''@attributes'' = (if at = [] then None else Some (attrib_value at)) \<and>
    map_of init ''text'' =
       (case tx of None \<Rightarrow> None
        | Some t \<Rightarrow> if strip t = [] then None else Some (VStr (strip t))) \<and>
    (\<forall>k. k \<noteq> ''@attributes'' \<and> k \<noteq> ''text'' \<longrightarrow> map_of init k = None)"
proof (cases "\<exists>t. tx = Some t \<and> strip t \<noteq> []")
  case True
  then obtain t where t: "tx = Some t" "strip t \<noteq> []" by blast
  then have "t \<noteq> []" by (auto simp: strip_Nil)
  let ?r1 = "if at \<noteq> [] then dict_setitem [] ''@attributes'' (attrib_value at) else []"
  let ?init = "dict_setitem ?r1 ''text'' (VStr (strip t))"
  have "xml_to_dict_recursive (Element tg at tx cs) = map_option VDict (add_children ?init cs)"
    using assms t \<open>t \<noteq> []\<close> by (simp add: Let_def)
  moreover have "map_of ?init ''@attributes'' = (if at = [] then None else Some (attrib_value at))"
    by (simp add: map_of_dict_setitem)
  moreover have "map_of ?init ''text'' = Some (VStr (strip t))"
    by (simp add: map_of_dict_setitem)
  moreover have "\<forall>k. k \<noteq> ''@attributes'' \<and> k \<noteq> ''text'' \<longrightarrow> map_of ?init k = None"
    by (simp add: map_of_dict_setitem)
  ultimately show ?thesis
    using t by (intro exI [of _ ?init]) simp
next
  case False
  let ?init = "if at \<noteq> [] then dict_setitem [] ''@attributes'' (attrib_value at) else []"
  have "xml_to_dict_recursive (Element tg at tx cs) = map_option VDict (add_children ?init cs)"
    using False by (cases tx) (auto simp: Let_def)
  moreover have "map_of ?init ''@attributes'' = (if at = [] then None else Some (attrib_value at))"
    by simp
  moreover have "map_of ?init ''text'' = None"
    by simp
  moreover have "\<forall>k. k \<noteq> ''@attributes'' \<and> k \<noteq> ''text'' \<longrightarrow> map_of ?init k = None"
    by simp
  ultimately show ?thesis
    using False by (intro exI [of _ ?init]) (auto split: option.splits)
qed

lemma length_converted:
  "map xml_to_dict_recursive ks = map Some vs \<Longrightarrow> length vs = length ks"
  by (metis length_map)

lemma converted_member:
  assumes "map xml_to_dict_recursive ks = map Some vs" and "c \<in> set ks"
    and "xml_to_dict_recursive c = Some v"
  shows "v \<in> set vs"
proof -
  from assms(2) have "xml_to_dict_recursive c \<in> set (map xml_to_dict_recursive ks)"
    by simp
  with assms(1,3) show ?thesis by auto
qed

lemma no_child_tagged: "n \<notin> tag ` set cs \<Longrightarrow> [c \<leftarrow> cs. tag c = n] = []"
  by (induction cs) auto

text \<open>
  C4, amended: an element with at least one child converts to a dict; when its stripped
  text is not empty and no child is tagged \<^verbatim>\<open>text\<close>, the dict holds the stripped text
  under \<^verbatim>\<open>text\<close>; and every child's converted value is found under the child's tag,
  either as the value itself or as a member of the list stored there.
\<close>

theorem C4_element_with_children:
  assumes "cs \<noteq> []"
  shows "\<exists>m. xml_to_dict_recursive (Element tg at tx cs) = Some (VDict m) \<and>
     (\<forall>t. tx = Some t \<and> strip t \<noteq> [] \<and> ''text'' \<notin> tag ` set cs \<longrightarrow>
        map_of m ''text'' = Some (VStr (strip t))) \<and>
     (\<forall>c \<in> set cs. \<exists>v. xml_to_dict_recursive c = Some v \<and>
        (map_of m (tag c) = Some v \<or>
         (\<exists>xs. map_of m (tag c) = Some (VList xs) \<and> v \<in> set xs)))"
proof -
  from assms obtain init where
    conv: "xml_to_dict_recursive (Element tg at tx cs) = map_option VDict (add_children init cs)"
    and a: "map_of init ''@attributes'' = (if at = [] then None else Some (attrib_value at))"
    and t: "map_of init ''text'' =
       (case tx of None \<Rightarrow> None
        | Some t \<Rightarrow> if strip t = [] then None else Some (VStr (strip t)))"
    and o: "\<forall>k. k \<noteq> ''@attributes'' \<and> k \<noteq> ''text'' \<longrightarrow> map_of init k = None"
    using element_with_children [of cs tg at tx] by blast
  obtain m where m: "add_children init cs = Some m"
    using add_children_returns by blast
  have init_not_list: "\<not> isinstance_list u" if u: "map_of init k = Some u" for k u
  proof (cases "k = ''@attributes''")
    case True
    with u a have "u = attrib_value at"
      by (simp split: if_splits)
    then show ?thesis by (simp add: attrib_value_not_list)
  next
    case False
    show ?thesis
    proof (cases "k = ''text''")
      case True
      with u t obtain s where "u = VStr s"
        by (auto split: option.splits if_splits)
      then show ?thesis by simp
    next
      case False
      with \<open>k \<noteq> ''@attributes''\<close> o u show ?thesis by simp
    qed
  qed
  have text_kept: "map_of m ''text'' = Some (VStr (strip s))"
    if "tx = Some s" "strip s \<noteq> []" "''text'' \<notin> tag ` set cs" for s
  proof -
    from that(3) have "[c \<leftarrow> cs. tag c = ''text''] = []"
      by (rule no_child_tagged)
    then have none: "map xml_to_dict_recursive [c \<leftarrow> cs. tag c = ''text''] = map Some []"
      by simp
    from t that(1,2) have "map_of init ''text'' = Some (VStr (strip s))"
      by simp
    from add_children_scalar_slot [OF this _ m none] show ?thesis
      by simp
  qed
  have child_kept: "\<exists>v. xml_to_dict_recursive c = Some v \<and>
        (map_of m (tag c) = Some v \<or>
         (\<exists>xs. map_of m (tag c) = Some (VList xs) \<and> v \<in> set xs))"
    if c: "c \<in> set cs" for c
  proof -
    obtain v where v: "xml_to_dict_recursive c = Some v"
      using xml_to_dict_recursive_returns by blast
    obtain vs where vs: "map xml_to_dict_recursive [c' \<leftarrow> cs. tag c' = tag c] = map Some vs"
      using converted_children by blast
    from c have "c \<in> set [c' \<leftarrow> cs. tag c' = tag c]"
      by simp
    from converted_member [OF vs this v] have mem: "v \<in> set vs" .
    have "map_of m (tag c) = Some v \<or>
         (\<exists>xs. map_of m (tag c) = Some (VList xs) \<and> v \<in> set xs)"
    proof (cases "map_of init (tag c)")
      case None
      from add_children_empty_slot [OF None m vs] mem show ?thesis
        by (auto split: list.splits)
    next
      case (Some u)
      from add_children_scalar_slot [OF Some init_not_list [OF Some] m vs] mem show ?thesis
        by auto
    qed
    with v show ?thesis by blast
  qed
  from conv m have "xml_to_dict_recursive (Element tg at tx cs) = Some (VDict m)"
    by simp
  moreover from text_kept have "\<forall>t. tx = Some t \<and> strip t \<noteq> [] \<and> ''text'' \<notin> tag ` set cs \<longrightarrow>
        map_of m ''text'' = Some (VStr (strip t))"
    by blast
  moreover from child_kept have "\<forall>c \<in> set cs. \<exists>v. xml_to_dict_recursive c = Some v \<and>
        (map_of m (tag c) = Some v \<or>
         (\<exists>xs. map_of m (tag c) = Some (VList xs) \<and> v \<in> set xs))"
    by blast
  ultimately show ?thesis
    by blast
qed

theorem C4_element_with_children_witness:
  "xml_to_dict_recursive
     (Element ''p'' [(''id'', ''7'')] (Some '' intro '')
        [Element ''b'' [] (Some ''x'') [], Element ''i'' [] None [],
         Element ''b'' [] (Some ''y'') []]) =
   Some (VDict [(''@attributes'', VDict [(''id'', VStr ''7'')]), (''text'', VStr ''intro''),
                (''b'', VList [VStr ''x'', VStr ''y'']), (''i'', VDict [])])"
  using C4_element_with_children [where cs =
      "[Element ''b'' [] (Some ''x'') [], Element ''i'' [] None [],
        Element ''b'' [] (Some ''y'') []]"
    and at = "[(''id'', ''7'')]" and tx = "Some '' intro ''" and tg = "''p''"]
  by (simp add: strip_def isspace_def add_child_def dict_contains_def dict_getitem_def
      attrib_value_def)

text \<open>
  The claim as written fails when a child is tagged \<^verbatim>\<open>text\<close>: the key then holds a
  list, not the stripped text.
\<close>

theorem C4_text_key_counterexample:
  "xml_to_dict_recursive
     (Element ''msg'' [] (Some ''hi'') [Element ''text'' [] (Some ''x'') []]) =
   Some (VDict [(''text'', VList [VStr ''hi'', VStr ''x''])]) \<and>
   strip ''hi'' = ''hi''"
  by (simp add: strip_def isspace_def add_child_def dict_contains_def dict_getitem_def)

text \<open>
  C5, amended: when exactly one child \<open>k\<close> carries the tag \<open>n\<close>, and \<open>n\<close> is not a key
  the element itself has already set, the dict maps \<open>n\<close> to the converted child itself,
  which is not a list.
\<close>

theorem C5_single_child:
  assumes "[c \<leftarrow> cs. tag c = n] = [k]"
    and "n = ''@attributes'' \<longrightarrow> at = []"
    and "n = ''text'' \<longrightarrow> (\<forall>t. tx = Some t \<longrightarrow> strip t = [])"
  shows "\<exists>m v. xml_to_dict_recursive (Element tg at tx cs) = Some (VDict m) \<and>
           xml_to_dict_recursive k = Some v \<and> map_of m n = Some v \<and> \<not> isinstance_list v"
proof -
  from assms(1) have "cs \<noteq> []" by auto
  then obtain init where
    conv: "xml_to_dict_recursive (Element tg at tx cs) = map_option VDict (add_children init cs)"
    and a: "map_of init ''@attributes'' = (if at = [] then None else Some (attrib_value at))"
    and t: "map_of init ''text'' =
       (case tx of None \<Rightarrow> None
        | Some t \<Rightarrow> if strip t = [] then None else Some (VStr (strip t)))"
    and o: "\<forall>k. k \<noteq> ''@attributes'' \<and> k \<noteq> ''text'' \<longrightarrow> map_of init k = None"
    using element_with_children [of cs tg at tx] by blast
  have slot: "map_of init n = None"
    using assms(2,3) a t o
    by (cases "n = ''@attributes''"; cases "n = ''text''") (auto split: option.splits)
  obtain m where m: "add_children init cs = Some m"
    using add_children_returns by blast
  obtain v where v: "xml_to_dict_recursive k = Some v"
    using xml_to_dict_recursive_returns by blast
  with assms(1) have "map xml_to_dict_recursive [c \<leftarrow> cs. tag c = n] = map Some [v]"
    by simp
  from add_children_empty_slot [OF slot m this] have "map_of m n = Some v"
    by simp
  with conv m v xml_to_dict_recursive_not_list [OF v] show ?thesis
    by simp
qed

theorem C5_single_child_witness:
  "xml_to_dict_recursive
     (Element ''book'' [(''id'', ''1'')] None
        [Element ''title'' [] (Some ''Clean Code'') [],
         Element ''author'' [] (Some ''R. Martin'') []]) =
   Some (VDict [(''@attributes'', VDict [(''id'', VStr ''1'')]),
                (''title'', VStr ''Clean Code''), (''author'', VStr ''R. Martin'')]) \<and>
   xml_to_dict_recursive (Element ''title'' [] (Some ''Clean Code'') []) =
     Some (VStr ''Clean Code'')"
  using C5_single_child [where cs =
      "[Element ''title'' [] (Some ''Clean Code'') [],
        Element ''author'' [] (Some ''R. Martin'') []]"
    and n = "''title''" and k = "Element ''title'' [] (Some ''Clean Code'') []"
    and at = "[(''id'', ''1'')]" and tx = None and tg = "''book''"]
  by (simp add: strip_def isspace_def add_child_def dict_contains_def dict_getitem_def
      attrib_value_def)

text \<open>
  The claim as written fails for a single child tagged \<^verbatim>\<open>text\<close> under an element with
  text: the key holds the list of the element's text and the converted child.
\<close>

theorem C5_reserved_key_counterexample:
  "xml_to_dict_recursive
     (Element ''para'' [] (Some ''hello'') [Element ''text'' [] (Some ''x'') []]) =
   Some (VDict [(''text'', VList [VStr ''hello'', VStr ''x''])]) \<and>
   xml_to_dict_recursive (Element ''text'' [] (Some ''x'') []) = Some (VStr ''x'')"
  by (simp add: strip_def isspace_def add_child_def dict_contains_def dict_getitem_def)

text \<open>
  C2, amended: when \<open>k \<ge> 2\<close> children carry the tag \<open>n\<close>, and \<open>n\<close> is not a key the
  element itself has already set (\<^verbatim>\<open>@attributes\<close> when it has attributes, \<^verbatim>\<open>text\<close> when
  its stripped text is not empty), the dict maps \<open>n\<close> to the list of the \<open>k\<close> converted
  children in document order. The loop body stores a first occurrence directly, turns a
  stored value that is not a list into the two-element list of it and the new value, and
  appends to a stored list.
\<close>

theorem C2_repeated_tag:
  assumes "[c \<leftarrow> cs. tag c = n] = ks" and "2 \<le> length ks"
    and "n = ''@attributes'' \<longrightarrow> at = []"
    and "n = ''text'' \<longrightarrow> (\<forall>t. tx = Some t \<longrightarrow> strip t = [])"
  shows "(\<exists>m vs. xml_to_dict_recursive (Element tg at tx cs) = Some (VDict m) \<and>
            map xml_to_dict_recursive ks = map Some vs \<and> length vs = length ks \<and>
            map_of m n = Some (VList vs)) \<and>
         (\<forall>result k x. map_of result k = None \<longrightarrow>
            add_child result k x = Some (dict_setitem result k x)) \<and>
         (\<forall>result k v x. map_of result k = Some v \<and> \<not> isinstance_list v \<longrightarrow>
            add_child result k x = Some (dict_setitem result k (VList [v, x]))) \<and>
         (\<forall>result k xs x. map_of result k = Some (VList xs) \<longrightarrow>
            add_child result k x = Some (dict_setitem result k (VList (xs @ [x]))))"
proof -
  from assms(1,2) have "cs \<noteq> []" by auto
  then obtain init where
    conv: "xml_to_dict_recursive (Element tg at tx cs) = map_option VDict (add_children init cs)"
    and a: "map_of init ''@attributes'' = (if at = [] then None else Some (attrib_value at))"
    and t: "map_of init ''text'' =
       (case tx of None \<Rightarrow> None
        | Some t \<Rightarrow> if strip t = [] then None else Some (VStr (strip t)))"
    and o: "\<forall>k. k \<noteq> ''@attributes'' \<and> k \<noteq> ''text'' \<longrightarrow> map_of init k = None"
    using element_with_children [of cs tg at tx] by blast
  have slot: "map_of init n = None"
    using assms(3,4) a t o by (cases "n = ''@attributes''"; cases "n = ''text''") (auto split: option.splits)
  obtain m where m: "add_children init cs = Some m"
    using add_children_returns by blast
  obtain vs where vs: "map xml_to_dict_recursive ks = map Some vs"
    using converted_children by blast
  then have len: "length vs = length ks"
    by (rule length_converted)
  from vs assms(1) have "map xml_to_dict_recursive [c \<leftarrow> cs. tag c = n] = map Some vs"
    by simp
  from add_children_empty_slot [OF slot m this] len assms(2)
  have "map_of m n = Some (VList vs)"
    by (auto split: list.splits)
  with conv m vs len have
    "\<exists>m vs. xml_to_dict_recursive (Element tg at tx cs) = Some (VDict m) \<and>
       map xml_to_dict_recursive ks = map Some vs \<and> length vs = length ks \<and>
       map_of m n = Some (VList vs)"
    by auto
  then show ?thesis
    by (simp add: add_child_absent add_child_scalar_list add_child_list)
qed

theorem C2_repeated_tag_witness:
  "xml_to_dict_recursive
     (Element ''library'' [(''name'', ''Tech'')] None
        [Element ''book'' [] (Some ''A'') [], Element ''shelf'' [] None [],
         Element ''book'' [] (Some ''B'') [], Element ''book'' [] (Some ''C'') []]) =
   Some (VDict [(''@attributes'', VDict [(''name'', VStr ''Tech'')]),
                (''book'', VList [VStr ''A'', VStr ''B'', VStr ''C'']),
                (''shelf'', VDict [])]) \<and>
   add_child [] ''book'' (VStr ''A'') = Some [(''book'', VStr ''A'')] \<and>
   add_child [(''book'', VStr ''A'')] ''book'' (VStr ''B'') =
     Some [(''book'', VList [VStr ''A'', VStr ''B''])] \<and>
   add_child [(''book'', VList [VStr ''A'', VStr ''B''])] ''book'' (VStr ''C'') =
     Some [(''book'', VList [VStr ''A'', VStr ''B'', VStr ''C''])]"
  using C2_repeated_tag [where cs =
    "[Element ''book'' [] (Some ''A'') [], Element ''shelf'' [] None [],
         Element ''book'' [] (Some ''B'') [], Element ''book'' [] (Some ''C'') []]"
    and n = "''book''"
    and ks = "[Element ''book'' [] (Some ''A'') [], Element ''book'' [] (Some ''B'') [],
      Element ''book'' [] (Some ''C'') []]"
    and at = "[(''name'', ''Tech'')]" and tx = None and tg = "''library''"]
  by (simp add: strip_def isspace_def add_child_def dict_contains_def dict_getitem_def
      attrib_value_def)

text \<open>
  The claim as written fails when the repeated tag is \<^verbatim>\<open>text\<close> and the element has
  text: the text already sits under the key, and the two children make a list of three.
\<close>

theorem C2_reserved_key_counterexample:
  "xml_to_dict_recursive
     (Element ''note'' [] (Some ''hi'')
        [Element ''text'' [] (Some ''x'') [], Element ''text'' [] (Some ''y'') []]) =
   Some (VDict [(''text'', VList [VStr ''hi'', VStr ''x'', VStr ''y''])]) \<and>
   map xml_to_dict_recursive
     [Element ''text'' [] (Some ''x'') [], Element ''text'' [] (Some ''y'') []] =
   [Some (VStr ''x''), Some (VStr ''y'')]"
  by (simp add: strip_def isspace_def add_child_def dict_contains_def dict_getitem_def)

section \<open>Leaves\<close>

text \<open>
  C1, on the document of the source: \<^verbatim>\<open><price currency="USD">29.99</price>\<close> has an
  attribute, no child and the text \<^verbatim>\<open>29.99\<close>. The converter returns the bare string:
  the early return for a leaf with text leaves the call after \<^verbatim>\<open>@attributes\<close> was stored
  in \<^verbatim>\<open>result\<close>, and \<^verbatim>\<open>result\<close> is dropped.
\<close>

theorem C1_leaf_attributes_lost:
  "xml_to_dict_recursive (Element ''price'' [(''currency'', ''USD'')] (Some ''29.99'') []) =
     Some (VStr ''29.99'')"
  by (simp add: strip_def isspace_def)

text \<open>
  What a leaf with attributes does keep them for: a text that is absent or blank.
\<close>

lemma leaf_attributes_blank_text:
  assumes "at \<noteq> []" and "tx = None \<or> (\<exists>t. tx = Some t \<and> strip t = [])"
  shows "xml_to_dict_recursive (Element tg at tx []) =
           Some (VDict [(''@attributes'', attrib_value at)])"
  using assms by auto

text \<open>
  C3: an element with no attribute, no child and a text whose stripped form \<open>T\<close> is not
  empty converts to the string \<open>T\<close> itself.
\<close>

theorem C3_leaf_text:
  assumes "strip t \<noteq> []"
  shows "xml_to_dict_recursive (Element tg [] (Some t) []) = Some (VStr (strip t))"
  using assms by (auto simp: strip_def)

theorem C3_leaf_text_witness:
  "strip '' Clean Code  '' \<noteq> [] \<and>
   xml_to_dict_recursive (Element ''title'' [] (Some '' Clean Code  '') []) =
     Some (VStr ''Clean Code'')"
  using C3_leaf_text [of "'' Clean Code  ''" "''title''"]
  by (simp add: strip_def isspace_def)

text \<open>
  C9: an element with no attribute and no child, whose text is absent or made of
  whitespace only, converts to the empty dict.
\<close>

theorem C9_empty_leaf:
  assumes "tx = None \<or> (\<exists>t. tx = Some t \<and> (\<forall>c \<in> set t. isspace c))"
  shows "xml_to_dict_recursive (Element tg [] tx []) = Some (VDict [])"
  using assms by (auto simp: strip_empty_iff)

theorem C9_empty_leaf_witness:
  "xml_to_dict_recursive (Element ''br'' [] None []) = Some (VDict []) \<and>
   xml_to_dict_recursive (Element ''br'' [] (Some [CHR '' '', CHR 0x0A, CHR 0x09]) []) =
     Some (VDict [])"
  using C9_empty_leaf [of None "''br''"]
    C9_empty_leaf [of "Some [CHR '' '', CHR 0x0A, CHR 0x09]" "''br''"]
  by (simp add: isspace_def)

section \<open>The top-level dict\<close>

text \<open>
  C6: for every root element the top-level result is a dict with exactly one key, the
  root's tag, and the converted root as its value.
\<close>

theorem C6_top_level:
  "\<exists>v. xml_to_dict_recursive root = Some v \<and> xml_dict root = Some (VDict [(tag root, v)])"
proof -
  obtain v where "xml_to_dict_recursive root = Some v"
    using xml_to_dict_recursive_returns by blast
  then show ?thesis
    by (simp add: xml_dict_def)
qed

theorem C6_top_level_witness:
  "xml_dict (Element ''library'' [] None [Element ''book'' [] (Some ''A'') []]) =
     Some (VDict [(''library'', VDict [(''book'', VStr ''A'')])])"
  using C6_top_level [of "Element ''library'' [] None [Element ''book'' [] (Some ''A'') []]"]
  by (simp add: strip_def isspace_def add_child_def dict_contains_def)

section \<open>Totality and recursion depth\<close>

text \<open>
  With room for \<open>height e\<close> activations the stack-limited run is the converter itself.
\<close>

lemma foldr_max_le: "foldr max (map f xs) (0::nat) \<le> n \<longleftrightarrow> (\<forall>x \<in> set xs. f x \<le> n)"
  by (induction xs) auto

lemma height_children:
  "height (Element tg at tx cs) \<le> Suc n \<longleftrightarrow> (\<forall>c \<in> set cs. height c \<le> n)"
  by (simp add: foldr_max_le)



text \<open>The bound is exact: one level less and the conversion does not return.\<close>

lemma add_children_depth_None:
  "\<exists>c \<in> set cs. xml_to_dict_recursive_depth n c = None \<Longrightarrow>
   add_children_depth n result cs = None"
proof (induction cs arbitrary: result)
  case Nil
  then show ?case by simp
next
  case (Cons child rest)
  show ?case
  proof (cases "xml_to_dict_recursive_depth n child")
    case None
    then show ?thesis by simp
  next
    case (Some cd)
    with Cons.prems have rest: "\<exists>c \<in> set rest. xml_to_dict_recursive_depth n c = None"
      by auto
    obtain r1 where "add_child result (tag child) cd = Some r1"
      using add_child_total by blast
    with Some Cons.IH [OF rest] show ?thesis by simp
  qed
qed

lemma xml_to_dict_recursive_depth_None:
  "limit < height e \<Longrightarrow> xml_to_dict_recursive_depth limit e = None"
proof (induction e arbitrary: limit)
  case (Element tg at tx cs)
  show ?case
  proof (cases limit)
    case 0
    then show ?thesis by simp
  next
    case (Suc n)
    with Element.prems have "\<not> height (Element tg at tx cs) \<le> Suc n"
      by linarith
    then have "\<not> (\<forall>c \<in> set cs. height c \<le> n)"
      unfolding height_children .
    then obtain c where c: "c \<in> set cs" "n < height c"
      by force
    with Element.IH have "xml_to_dict_recursive_depth n c = None"
      by blast
    with c have "\<exists>c \<in> set cs. xml_to_dict_recursive_depth n c = None"
      by blast
    then have none: "add_children_depth n r cs = None" for r
      by (rule add_children_depth_None)
    from c have "cs \<noteq> []" by auto
    with none show ?thesis
      unfolding Suc by (simp add: Let_def split: option.splits)
  qed
qed



section \<open>Lists occur only inside dicts\<close>

lemma well_shaped_VDict:
  "well_shaped (VDict d) \<longleftrightarrow> (\<forall>(k, v) \<in> set d. well_shaped_slot v)"
  by (simp add: list_all_iff well_shaped_slot_def)

declare well_shaped.simps(2) [simp del]

lemma well_shaped_slot_simps:
  "well_shaped_slot (VList xs) \<longleftrightarrow> (\<forall>x \<in> set xs. well_shaped x)"
  "well_shaped_slot (VStr s)"
  "well_shaped_slot (VDict d) \<longleftrightarrow> well_shaped (VDict d)"
  by (simp_all add: well_shaped_slot_def list_all_iff)

lemma well_shaped_imp_slot: "well_shaped v \<Longrightarrow> well_shaped_slot v"
  by (cases v) (simp_all add: well_shaped_slot_simps)

lemma well_shaped_not_list: "well_shaped v \<Longrightarrow> \<not> isinstance_list v"
  by (cases v) simp_all

lemma slot_not_list: "well_shaped_slot v \<Longrightarrow> \<not> isinstance_list v \<Longrightarrow> well_shaped v"
  by (cases v) (simp_all add: well_shaped_slot_simps)

lemma well_shaped_setitem:
  "well_shaped (VDict d) \<Longrightarrow> well_shaped_slot v \<Longrightarrow> well_shaped (VDict (dict_setitem d k v))"
  unfolding well_shaped_VDict
  by (induction d k v rule: dict_setitem.induct) auto

lemma well_shaped_lookup:
  "well_shaped (VDict d) \<Longrightarrow> map_of d k = Some v \<Longrightarrow> well_shaped_slot v"
  unfolding well_shaped_VDict by (auto dest: map_of_SomeD)

lemma well_shaped_attrib_value: "well_shaped (attrib_value a)"
  by (auto simp: attrib_value_def well_shaped_VDict well_shaped_slot_simps)

lemma well_shaped_add_child:
  assumes "well_shaped (VDict result)" and "well_shaped x"
    and "add_child result k x = Some r"
  shows "well_shaped (VDict r)"
proof (cases "map_of result k")
  case None
  with assms(3) have "r = dict_setitem result k x"
    by (simp add: add_child_absent)
  with assms(1,2) show ?thesis
    by (simp add: well_shaped_setitem well_shaped_imp_slot)
next
  case (Some v)
  from well_shaped_lookup [OF assms(1) Some] have v: "well_shaped_slot v" .
  show ?thesis
  proof (cases "isinstance_list v")
    case True
    then obtain xs where xs: "v = VList xs" by (cases v) simp_all
    with Some assms(3) have "r = dict_setitem result k (VList (xs @ [x]))"
      by (simp add: add_child_list)
    moreover from v xs assms(2) have "well_shaped_slot (VList (xs @ [x]))"
      by (simp add: well_shaped_slot_simps)
    ultimately show ?thesis
      using assms(1) by (simp add: well_shaped_setitem)
  next
    case False
    with Some assms(3) have "r = dict_setitem result k (VList [v, x])"
      by (simp add: add_child_scalar_list)
    moreover from slot_not_list [OF v False] assms(2) have "well_shaped_slot (VList [v, x])"
      by (simp add: well_shaped_slot_simps)
    ultimately show ?thesis
      using assms(1) by (simp add: well_shaped_setitem)
  qed
qed

lemma well_shaped_add_children:
  "(\<forall>c \<in> set cs. \<forall>v. xml_to_dict_recursive c = Some v \<longrightarrow> well_shaped v) \<Longrightarrow>
   well_shaped (VDict result) \<Longrightarrow> add_children result cs = Some r \<Longrightarrow>
   well_shaped (VDict r)"
proof (induction cs arbitrary: result)
  case Nil
  then show ?case by simp
next
  case (Cons c rest)
  from Cons.prems(3) obtain cd r1 where
    cd: "xml_to_dict_recursive c = Some cd" and
    r1: "add_child result (tag c) cd = Some r1" and
    r: "add_children r1 rest = Some r"
    unfolding add_children_Cons_Some by blast
  from Cons.prems(1) cd have "well_shaped cd" by simp
  from well_shaped_add_child [OF Cons.prems(2) this r1] have ws: "well_shaped (VDict r1)" .
  from Cons.prems(1)
  have "\<forall>c \<in> set rest. \<forall>v. xml_to_dict_recursive c = Some v \<longrightarrow> well_shaped v"
    by simp
  from Cons.IH [OF this ws r] show ?case .
qed

lemma well_shaped_initial:
  "well_shaped (VDict (if at \<noteq> [] then dict_setitem [] ''@attributes'' (attrib_value at) else []))"
  by (simp add: well_shaped_VDict well_shaped_imp_slot well_shaped_attrib_value)

lemma xml_to_dict_recursive_well_shaped:
  "xml_to_dict_recursive e = Some v \<Longrightarrow> well_shaped v"
proof (induction e arbitrary: v)
  case (Element tg at tx cs)
  let ?r1 = "if at \<noteq> [] then dict_setitem [] ''@attributes'' (attrib_value at) else []"
  from Element.IH
  have kids: "\<forall>c \<in> set cs. \<forall>v. xml_to_dict_recursive c = Some v \<longrightarrow> well_shaped v"
    by blast
  have loop: "well_shaped (VDict r)"
    if "well_shaped (VDict init)" "add_children init cs = Some r" for init r
    using kids that by (rule well_shaped_add_children)
  have r1: "well_shaped (VDict ?r1)"
    by (rule well_shaped_initial)
  then have r2: "well_shaped (VDict (dict_setitem ?r1 ''text'' (VStr s)))" for s
    by (rule well_shaped_setitem) (simp add: well_shaped_slot_simps)
  from Element.prems show ?case
    by (auto simp: Let_def split: option.splits if_splits intro: loop [OF r1] loop [OF r2])
qed


text \<open>Where a list under a key comes from.\<close>

lemma initial_slot:
  assumes "\<forall>k. k \<noteq> ''@attributes'' \<and> k \<noteq> ''text'' \<longrightarrow> map_of init k = None"
    and "map_of init ''@attributes'' = (if at = [] then None else Some (attrib_value at))"
    and "map_of init ''text'' =
       (case tx of None \<Rightarrow> None
        | Some t \<Rightarrow> if strip t = [] then None else Some (VStr (strip t)))"
    and "map_of init n = Some u"
  shows "\<not> isinstance_list u \<and>
         ((n = ''text'' \<and> (\<exists>t. tx = Some t \<and> strip t \<noteq> [])) \<or>
          (n = ''@attributes'' \<and> at \<noteq> []))"
proof (cases "n = ''@attributes''")
  case True
  with assms(2,4) have "u = attrib_value at" and "at \<noteq> []"
    by (simp_all split: if_splits)
  with True show ?thesis
    by (simp add: attrib_value_not_list)
next
  case False
  show ?thesis
  proof (cases "n = ''text''")
    case True
    with assms(3,4) obtain t where "tx = Some t" "strip t \<noteq> []" "u = VStr (strip t)"
      by (auto split: option.splits if_splits)
    with True show ?thesis by simp
  next
    case False
    with \<open>n \<noteq> ''@attributes''\<close> assms(1,4) show ?thesis by simp
  qed
qed

lemma list_slot_origin:
  assumes conv: "xml_to_dict_recursive (Element tg at tx cs) = Some (VDict m)"
    and slot: "map_of m n = Some (VList xs)"
  shows "[c \<leftarrow> cs. tag c = n] \<noteq> [] \<and>
         (2 \<le> length [c \<leftarrow> cs. tag c = n] \<or>
          (n = ''text'' \<and> (\<exists>t. tx = Some t \<and> strip t \<noteq> [])) \<or>
          (n = ''@attributes'' \<and> at \<noteq> []))"
proof (cases "cs = []")
  case True
  let ?r1 = "if at \<noteq> [] then dict_setitem [] ''@attributes'' (attrib_value at) else []"
  from conv True have "m = ?r1"
    by (auto simp: Let_def split: option.splits if_splits)
  with slot have False
    by (auto simp: attrib_value_def split: if_splits)
  then show ?thesis ..
next
  case False
  then obtain init where
    run: "xml_to_dict_recursive (Element tg at tx cs) = map_option VDict (add_children init cs)"
    and a: "map_of init ''@attributes'' = (if at = [] then None else Some (attrib_value at))"
    and t: "map_of init ''text'' =
       (case tx of None \<Rightarrow> None
        | Some t \<Rightarrow> if strip t = [] then None else Some (VStr (strip t)))"
    and o: "\<forall>k. k \<noteq> ''@attributes'' \<and> k \<noteq> ''text'' \<longrightarrow> map_of init k = None"
    using element_with_children [of cs tg at tx] by blast
  from run conv have m: "add_children init cs = Some m"
    by auto
  obtain vs where vs: "map xml_to_dict_recursive [c \<leftarrow> cs. tag c = n] = map Some vs"
    using converted_children by blast
  then have len: "length vs = length [c \<leftarrow> cs. tag c = n]"
    by (rule length_converted)
  show ?thesis
  proof (cases "map_of init n")
    case None
    from add_children_empty_slot [OF None m vs] slot
    have shape: "(case vs of [] \<Rightarrow> None | [v] \<Rightarrow> Some v | v # w # ws \<Rightarrow> Some (VList vs)) =
        Some (VList xs)"
      by simp
    have "2 \<le> length vs"
    proof (cases vs)
      case Nil
      with shape show ?thesis by simp
    next
      case (Cons v rest)
      show ?thesis
      proof (cases rest)
        case Nil
        with Cons shape have v: "v = VList xs" by simp
        from Cons Nil vs obtain k where "xml_to_dict_recursive k = Some v"
          by (cases "[c \<leftarrow> cs. tag c = n]") auto
        from xml_to_dict_recursive_not_list [OF this] v show ?thesis by simp
      next
        case (Cons w ws)
        with \<open>vs = v # rest\<close> show ?thesis by simp
      qed
    qed
    with len show ?thesis by auto
  next
    case (Some u)
    from initial_slot [OF o a t Some]
    have u: "\<not> isinstance_list u"
      and key: "(n = ''text'' \<and> (\<exists>t. tx = Some t \<and> strip t \<noteq> [])) \<or>
          (n = ''@attributes'' \<and> at \<noteq> [])"
      by blast+
    from add_children_scalar_slot [OF Some u m vs] slot u have "vs \<noteq> []"
      by (auto split: if_splits)
    with len have "[c \<leftarrow> cs. tag c = n] \<noteq> []"
      by auto
    with key show ?thesis by blast
  qed
qed

text \<open>
  C10, amended: a converted element is a string or a dict, never a list; inside it a list
  occurs only as a value stored in a dict, and never as a member of a list; and a key of
  the converted element that holds a list is the tag of a child, a tag that at least two
  children carry or that is equal to a key the element itself has set (\<^verbatim>\<open>text\<close> with a
  non-empty stripped text, \<^verbatim>\<open>@attributes\<close> with attributes).
\<close>

theorem C10_shape:
  "\<exists>v. xml_to_dict_recursive (Element tg at tx cs) = Some v \<and>
        \<not> isinstance_list v \<and> well_shaped v \<and>
        (\<forall>m n xs. v = VDict m \<and> map_of m n = Some (VList xs) \<longrightarrow>
           [c \<leftarrow> cs. tag c = n] \<noteq> [] \<and>
           (2 \<le> length [c \<leftarrow> cs. tag c = n] \<or>
            (n = ''text'' \<and> (\<exists>t. tx = Some t \<and> strip t \<noteq> [])) \<or>
            (n = ''@attributes'' \<and> at \<noteq> [])))"
proof -
  obtain v where v: "xml_to_dict_recursive (Element tg at tx cs) = Some v"
    using xml_to_dict_recursive_returns by blast
  from v have "\<not> isinstance_list v"
    by (rule xml_to_dict_recursive_not_list)
  moreover from v have "well_shaped v"
    by (rule xml_to_dict_recursive_well_shaped)
  moreover have "[c \<leftarrow> cs. tag c = n] \<noteq> [] \<and>
           (2 \<le> length [c \<leftarrow> cs. tag c = n] \<or>
            (n = ''text'' \<and> (\<exists>t. tx = Some t \<and> strip t \<noteq> [])) \<or>
            (n = ''@attributes'' \<and> at \<noteq> []))"
    if "v = VDict m" "map_of m n = Some (VList xs)" for m n xs
    using v that by (simp add: list_slot_origin)
  ultimately show ?thesis
    using v by blast
qed

theorem C10_shape_witness:
  "xml_to_dict_recursive
     (Element ''library'' [(''name'', ''T'')] (Some ''intro'')
        [Element ''book'' [] (Some ''A'') [], Element ''text'' [] (Some ''B'') [],
         Element ''book'' [(''id'', ''2'')] None [Element ''title'' [] (Some ''C'') []]]) =
   Some (VDict [(''@attributes'', VDict [(''name'', VStr ''T'')]),
                (''text'', VList [VStr ''intro'', VStr ''B'']),
                (''book'', VList [VStr ''A'',
                   VDict [(''@attributes'', VDict [(''id'', VStr ''2'')]),
                          (''title'', VStr ''C'')]])]) \<and>
   well_shaped
     (VDict [(''@attributes'', VDict [(''name'', VStr ''T'')]),
             (''text'', VList [VStr ''intro'', VStr ''B'']),
             (''book'', VList [VStr ''A'',
                VDict [(''@attributes'', VDict [(''id'', VStr ''2'')]),
                       (''title'', VStr ''C'')]])])"
  using C10_shape [where tg = "''library''" and at = "[(''name'', ''T'')]"
    and tx = "Some ''intro''" and cs =
      "[Element ''book'' [] (Some ''A'') [], Element ''text'' [] (Some ''B'') [],
        Element ''book'' [(''id'', ''2'')] None [Element ''title'' [] (Some ''C'') []]]"]
  by (simp add: strip_def isspace_def add_child_def dict_contains_def dict_getitem_def
      attrib_value_def well_shaped.simps)

text \<open>
  The claim as written fails on the last point: here a list sits under \<^verbatim>\<open>text\<close>, and
  only one child is tagged \<^verbatim>\<open>text\<close>.
\<close>

theorem C10_unrepeated_tag_counterexample:
  "xml_to_dict_recursive
     (Element ''memo'' [] (Some ''hi'') [Element ''text'' [] (Some ''x'') []]) =
   Some (VDict [(''text'', VList [VStr ''hi'', VStr ''x''])]) \<and>
   map tag [Element ''text'' [] (Some ''x'') []] = [''text'']"
  by (simp add: strip_def isspace_def add_child_def dict_contains_def dict_getitem_def)

section \<open>The heap: loads and frames\<close>





lemma load_Some_less: "load h a = Some ob \<Longrightarrow> a < length h"
  by (simp add: load_def split: if_splits)


lemma load_dict_cong: "load h' a = load h a \<Longrightarrow> load_dict h' (RObj a) = load_dict h (RObj a)"
  by (simp add: load_dict_def)

lemma load_dict_less: "load_dict h (RObj a) = Some d \<Longrightarrow> a < length h"
  by (auto simp: load_dict_def dest: load_Some_less split: option.splits pyobj.splits)

lemma load_dict_RStr: "load_dict h (RStr s) = None"
  by (simp add: load_dict_def)


section \<open>Representation: frame and monotonicity\<close>

lemma rep_VDict_iff:
  "represents h F r (VDict m) \<longleftrightarrow>
   (\<exists>a d. r = RObj a \<and> a \<in> F \<and> load h a = Some (ODict d) \<and> map fst d = map fst m \<and>
      list_all2 (represents h F) (map snd d) (map snd m))"
proof (cases r)
  case (RStr s)
  then show ?thesis by (simp add: load_dict_def)
next
  case (RObj a)
  show ?thesis
  proof (cases "load h a")
    case None
    with RObj show ?thesis by (simp add: load_dict_def)
  next
    case (Some ob)
    with RObj show ?thesis
      by (cases ob) (auto simp: load_dict_def)
  qed
qed

lemma rep_VList_iff:
  "represents h F r (VList vs) \<longleftrightarrow>
   (\<exists>a rs. r = RObj a \<and> a \<in> F \<and> load h a = Some (OList rs) \<and> list_all2 (represents h F) rs vs)"
proof (cases r)
  case (RStr s)
  then show ?thesis by simp
next
  case (RObj a)
  show ?thesis
  proof (cases "load h a")
    case None
    with RObj show ?thesis by simp
  next
    case (Some ob)
    with RObj show ?thesis
      by (cases ob) auto
  qed
qed

declare represents.simps(2,3) [simp del]



lemma rep_not_list_iff:
  "represents h F r v \<Longrightarrow> heap_isinstance_list h r \<longleftrightarrow> isinstance_list v"
  by (cases v) (auto simp: heap_isinstance_list_def rep_VDict_iff rep_VList_iff)

section \<open>The dict invariant\<close>



lemma slot_rep_not_list:
  "\<not> isinstance_list v \<Longrightarrow> slot_rep h G res r v \<longleftrightarrow> represents h G r v"
  by (cases v) (simp_all add: slot_rep_def)

lemma slot_rep_VList_iff:
  "slot_rep h G res r (VList vs) \<longleftrightarrow>
   (\<exists>a rs. r = RObj a \<and> a \<notin> G \<and> res < a \<and> load h a = Some (OList rs) \<and>
      list_all2 (represents h G) rs vs)"
proof (cases r)
  case (RStr s)
  then show ?thesis by (simp add: slot_rep_def)
next
  case (RObj a)
  show ?thesis
  proof (cases "load h a")
    case None
    with RObj show ?thesis by (simp add: slot_rep_def)
  next
    case (Some ob)
    with RObj show ?thesis
      by (cases ob) (auto simp: slot_rep_def)
  qed
qed

lemma slot_rep_isinstance:
  "slot_rep h G res r v \<Longrightarrow> heap_isinstance_list h r \<longleftrightarrow> isinstance_list v"
proof (cases "isinstance_list v")
  case True
  assume s: "slot_rep h G res r v"
  from True obtain vs where "v = VList vs" by (cases v) simp_all
  with s True show ?thesis
    by (auto simp: slot_rep_VList_iff heap_isinstance_list_def)
next
  case False
  assume "slot_rep h G res r v"
  with False show ?thesis
    by (simp add: slot_rep_not_list rep_not_list_iff)
qed




lemma dict_inv_contains: "dict_inv h G res d m \<Longrightarrow> dict_contains d k = dict_contains m k"
  by (simp add: dict_inv_def dict_contains_def)






section \<open>One step of the loop on the heap\<close>






section \<open>The attribute dicts of the input\<close>



section \<open>The loop over the children on the heap\<close>



section \<open>A run of the converter on the heap\<close>








end
